theory Spec2Isabelle
  imports Complex_Main "HOL-Library.Stream" "HOL-Library.Log_Nat"
begin

unbundle bit_operations_syntax

section \<open>Python values, failures and loops\<close>

text \<open>
  Python integers are unbounded: \<open>int\<close>. An exception is a value on the left of a sum.
  The exceptions below are the ones the modelled statements can raise: a list index out
  of range, a zero divisor of \<open>%\<close> or \<open>/\<close>, a quotient of integers too large for a float,
  and an empty range given to \<open>random.randint\<close>.
\<close>

datatype py_error = IndexError | ZeroDivisionError | OverflowError | ValueError

definition py_index :: "'a list \<Rightarrow> int \<Rightarrow> py_error + 'a" where
  \<comment> \<open>\<open>xs[i]\<close>: positions from the front are 0 and up, positions from the back are -1 and
      down; any other index raises.\<close>
  "py_index xs i =
     (if 0 \<le> i \<and> i < int (length xs) then Inr (xs ! nat i)
      else if i < 0 \<and> - int (length xs) \<le> i then Inr (xs ! nat (int (length xs) + i))
      else Inl IndexError)"

definition py_range :: "int \<Rightarrow> int \<Rightarrow> int list" where
  \<comment> \<open>\<open>range(lo, hi)\<close>: empty when \<open>hi \<le> lo\<close>.\<close>
  "py_range lo hi = [lo..hi - 1]"

definition py_mod :: "int \<Rightarrow> int \<Rightarrow> py_error + int" where
  \<comment> \<open>\<open>x % m\<close> on integers: the result has the sign of \<open>m\<close>, as \<open>mod\<close> on \<open>int\<close> has.\<close>
  "py_mod x m = (if m = 0 then Inl ZeroDivisionError else Inr (x mod m))"

text \<open>
  \<open>x / m\<close> on two integers gives a float: the double nearest to the quotient, a tie going
  to the even significand. A float is kept as its value, a rational, so the two zeros of
  the format are one value here, as they are for \<open>==\<close>. The double is found as CPython
  finds it: the binary exponent of the quotient from the bit lengths of the operands, the
  spacing of the doubles at that exponent (53 significant bits, no exponent below -1022),
  and the multiple of the spacing nearest to the quotient.
\<close>

definition round_half_even :: "rat \<Rightarrow> int" where
  \<comment> \<open>the nearest integer, the even one of the two when \<open>x\<close> lies half way\<close>
  "round_half_even x =
     (let f = \<lfloor>x\<rfloor>; r = x - of_int f
      in if r < 1 / 2 then f else if 1 / 2 < r then f + 1 else if even f then f else f + 1)"

definition binary_exponent :: "int \<Rightarrow> int \<Rightarrow> int" where
  \<comment> \<open>for positive \<open>p\<close> and \<open>d\<close>, the \<open>e\<close> with \<open>2\<^sup>e \<le> p / d < 2\<^sup>e\<^sup>+\<^sup>1\<close>; \<open>bitlen\<close> is
      \<open>int.bit_length\<close>\<close>
  "binary_exponent p d =
     (let k = bitlen p - bitlen d
      in if 2 powi k \<le> (of_int p / of_int d :: rat) then k else k - 1)"

definition nearest_double :: "int \<Rightarrow> int \<Rightarrow> rat" where
  \<comment> \<open>for \<open>p \<ge> 0\<close> and \<open>d > 0\<close>, the double nearest to \<open>p / d\<close>\<close>
  "nearest_double p d =
     (if p = 0 then 0
      else let ulp = 2 powi (max (binary_exponent p d) (- 1022) - 52)
           in of_int (round_half_even (of_int p / of_int d / ulp)) * ulp)"

definition py_truediv :: "int \<Rightarrow> int \<Rightarrow> py_error + rat" where
  \<comment> \<open>\<open>x / m\<close> on integers: the nearest double, with the sign of the quotient; a result
      beyond the largest double raises.\<close>
  "py_truediv x m =
     (if m = 0 then Inl ZeroDivisionError
      else let r = nearest_double \<bar>x\<bar> \<bar>m\<bar>
           in if 2 ^ 1024 \<le> r then Inl OverflowError
              else Inr (if (x < 0) = (m < 0) then r else - r))"

fun for_append :: "('a \<Rightarrow> py_error + 'b) \<Rightarrow> 'a list \<Rightarrow> py_error + 'b list" where
  \<comment> \<open>\<open>out = []; for x in xs: out.append(body(x))\<close>, left at the first exception.\<close>
  "for_append body [] = Inr []"
| "for_append body (x # xs) =
     (case body x of
        Inl e \<Rightarrow> Inl e
      | Inr y \<Rightarrow> (case for_append body xs of Inl e \<Rightarrow> Inl e | Inr ys \<Rightarrow> Inr (y # ys)))"

definition set_add :: "'a \<Rightarrow> 'a list \<Rightarrow> 'a list" where
  \<comment> \<open>\<open>s.add(x)\<close> on a Python set kept as the list of its elements, each once\<close>
  "set_add x s = (if x \<in> set s then s else s @ [x])"

definition py_slice :: "'a list \<Rightarrow> int \<Rightarrow> int \<Rightarrow> 'a list" where
  \<comment> \<open>\<open>xs[start:stop]\<close>: a negative bound counts from the end, and both are clamped
      to the list; there is no exception.\<close>
  "py_slice xs start stop =
     (let n = int (length xs);
          lo = (if start < 0 then max (start + n) 0 else min start n);
          hi = (if stop < 0 then max (stop + n) 0 else min stop n)
      in take (nat (hi - lo)) (drop (nat lo) xs))"

section \<open>lexical_proximity_algorithm.py\<close>

text \<open>
  The object's attributes. \<open>docs_as_sets\<close> is a dict from document id to a set of shingle
  ids: it is kept as its entries in insertion order (the order in which Python walks a
  dict), and each set as its elements in the order in which Python walks that set, an
  order the language leaves open. \<open>for doc_id in d: v = d[doc_id]\<close> is the walk over the
  entries. The similarity threshold is stored and never read by the class.
\<close>

record lexical_proximity_algorithm =
  docs_as_sets :: "(int \<times> int list) list"
  num_hashes :: int
  similarity_threshold :: rat
  num_docs :: int
  max_shingle :: int
  next_prime :: int
  coeff_a :: "int list"
  coeff_b :: "int list"

subsection \<open>_pick_random_coeffs\<close>

text \<open>
  \<open>random.randint(a, b)\<close> is the standard library's: it returns some \<open>N\<close> with
  \<open>a \<le> N \<le> b\<close> and raises ValueError when there is none. The generator is the stream
  of its raw outputs still to come; the draw reduces the next one into the range, so
  every sequence of results that \<open>randint\<close> can give comes from some stream.
\<close>

definition randint :: "int \<Rightarrow> int \<Rightarrow> int stream \<Rightarrow> py_error + int \<times> int stream" where
  "randint a b rng =
     (if b < a then Inl ValueError else Inr (a + shd rng mod (b - a + 1), stl rng))"

text \<open>
  The \<open>while\<close> loop of lines 58 to 61, on the two attributes it reads. \<open>rand_set\<close> holds
  the elements of the Python set, each once, in the order of their insertion.
  \<open>list(rand_set)\<close> lists them in the order of CPython's hash table, which is another
  order: what is stated of a pool below is its length, its elements and their
  distinctness, and what is stated of signatures holds for every list of coefficients.
  The loop has no bound on its retries: not returning is the value \<open>None\<close>.
\<close>

partial_function (option) pick_loop ::
  "int \<Rightarrow> int \<Rightarrow> int stream \<Rightarrow> int list \<Rightarrow> (py_error + int list \<times> int stream) option" where
  "pick_loop n_hashes m_shingle rng rand_set =
     (if int (length rand_set) < n_hashes then
        (case randint 0 m_shingle rng of
           Inl e \<Rightarrow> Some (Inl e)
         | Inr (rand_index, rng') \<Rightarrow>
             pick_loop n_hashes m_shingle rng'
               (if rand_index \<notin> set rand_set then set_add rand_index rand_set else rand_set))
      else Some (Inr (rand_set, rng)))"

definition pick_random_coeffs ::
  "int \<Rightarrow> int \<Rightarrow> int stream \<Rightarrow> (py_error + int list \<times> int stream) option" where
  "pick_random_coeffs n_hashes m_shingle rng = pick_loop n_hashes m_shingle rng []"

subsection \<open>__init__\<close>

definition init ::
  "(int \<times> int list) list \<Rightarrow> int \<Rightarrow> rat \<Rightarrow> int stream \<Rightarrow>
     (py_error + lexical_proximity_algorithm \<times> int stream) option" where
  "init docs n_hashes threshold rng =
     (let m_shingle = 2 ^ 32 - 1; n_prime = 4294967311 in
      case pick_random_coeffs n_hashes m_shingle rng of
        None \<Rightarrow> None
      | Some (Inl e) \<Rightarrow> Some (Inl e)
      | Some (Inr (a, rng1)) \<Rightarrow>
         (case pick_random_coeffs n_hashes m_shingle rng1 of
            None \<Rightarrow> None
          | Some (Inl e) \<Rightarrow> Some (Inl e)
          | Some (Inr (b, rng2)) \<Rightarrow>
              Some (Inr (\<lparr>docs_as_sets = docs, num_hashes = n_hashes,
                          similarity_threshold = threshold, num_docs = int (length docs),
                          max_shingle = m_shingle, next_prime = n_prime,
                          coeff_a = a, coeff_b = b\<rparr>, rng2))))"

subsection \<open>generate_minhash_signatures\<close>

definition hash_code :: "lexical_proximity_algorithm \<Rightarrow> int \<Rightarrow> int \<Rightarrow> py_error + int" where
  \<comment> \<open>line 78: \<open>(self.coeff_a[i] * shingleID + self.coeff_b[i]) % self.next_prime\<close>\<close>
  "hash_code self i shingleID =
     (case py_index (coeff_a self) i of
        Inl e \<Rightarrow> Inl e
      | Inr a \<Rightarrow>
         (case py_index (coeff_b self) i of
            Inl e \<Rightarrow> Inl e
          | Inr b \<Rightarrow> py_mod (a * shingleID + b) (next_prime self)))"

fun min_loop :: "lexical_proximity_algorithm \<Rightarrow> int \<Rightarrow> int list \<Rightarrow> int \<Rightarrow> py_error + int" where
  \<comment> \<open>lines 77 to 80: the walk over the shingle set, carrying \<open>min_hash\<close>\<close>
  "min_loop self i [] min_hash = Inr min_hash"
| "min_loop self i (shingleID # rest) min_hash =
     (case hash_code self i shingleID of
        Inl e \<Rightarrow> Inl e
      | Inr h \<Rightarrow> min_loop self i rest (if h < min_hash then h else min_hash))"

definition signature_slot :: "lexical_proximity_algorithm \<Rightarrow> int list \<Rightarrow> int \<Rightarrow> py_error + int" where
  \<comment> \<open>lines 76 to 80: one slot, started at \<open>next_prime + 1\<close>\<close>
  "signature_slot self shingleIDSet i = min_loop self i shingleIDSet (next_prime self + 1)"

definition doc_signature :: "lexical_proximity_algorithm \<Rightarrow> int list \<Rightarrow> py_error + int list" where
  \<comment> \<open>lines 74 to 81: the signature of one document\<close>
  "doc_signature self shingleIDSet =
     for_append (signature_slot self shingleIDSet) (py_range 0 (num_hashes self))"

definition generate_minhash_signatures ::
  "lexical_proximity_algorithm \<Rightarrow> py_error + int list list" where
  "generate_minhash_signatures self =
     for_append (\<lambda>(doc_id, shingleIDSet). doc_signature self shingleIDSet) (docs_as_sets self)"

subsection \<open>calculate_similarities\<close>

fun count_loop :: "int list \<Rightarrow> int list \<Rightarrow> int list \<Rightarrow> int \<Rightarrow> py_error + int" where
  \<comment> \<open>lines 99 and 100: \<open>count += (sig1[k] == sig2[k])\<close> for each \<open>k\<close>\<close>
  "count_loop sig1 sig2 [] count = Inr count"
| "count_loop sig1 sig2 (k # ks) count =
     (case py_index sig1 k of
        Inl e \<Rightarrow> Inl e
      | Inr x \<Rightarrow>
         (case py_index sig2 k of
            Inl e \<Rightarrow> Inl e
          | Inr y \<Rightarrow> count_loop sig1 sig2 ks (count + (if x = y then 1 else 0))))"

definition pair_similarity ::
  "lexical_proximity_algorithm \<Rightarrow> int list \<Rightarrow> int list \<Rightarrow> py_error + rat" where
  \<comment> \<open>lines 98 to 101: the estimate for one pair of signatures\<close>
  "pair_similarity self sig1 sig2 =
     (case count_loop sig1 sig2 (py_range 0 (num_hashes self)) 0 of
        Inl e \<Rightarrow> Inl e
      | Inr count \<Rightarrow> py_truediv count (num_hashes self))"

definition inner_pair ::
  "lexical_proximity_algorithm \<Rightarrow> int list list \<Rightarrow> int \<Rightarrow> int list \<Rightarrow> int \<Rightarrow>
     py_error + int \<times> int \<times> rat" where
  \<comment> \<open>lines 97 to 102: the body of the loop over \<open>j\<close>\<close>
  "inner_pair self signatures i sig1 j =
     (case py_index signatures j of
        Inl e \<Rightarrow> Inl e
      | Inr sig2 \<Rightarrow>
         (case pair_similarity self sig1 sig2 of
            Inl e \<Rightarrow> Inl e
          | Inr sim \<Rightarrow> Inr (i, j, sim)))"

definition outer_row ::
  "lexical_proximity_algorithm \<Rightarrow> int list list \<Rightarrow> int \<Rightarrow> py_error + (int \<times> int \<times> rat) list" where
  \<comment> \<open>lines 95 to 102: the body of the loop over \<open>i\<close>, giving the triples it appends\<close>
  "outer_row self signatures i =
     (case py_index signatures i of
        Inl e \<Rightarrow> Inl e
      | Inr sig1 \<Rightarrow>
          for_append (inner_pair self signatures i sig1) (py_range (i + 1) (num_docs self)))"

definition calculate_similarities ::
  "lexical_proximity_algorithm \<Rightarrow> int list list \<Rightarrow> py_error + (int \<times> int \<times> rat) list" where
  "calculate_similarities self signatures =
     (case for_append (outer_row self signatures) (py_range 0 (num_docs self)) of
        Inl e \<Rightarrow> Inl e
      | Inr rows \<Rightarrow> Inr (concat rows))"

section \<open>data_loader.py\<close>

text \<open>
  A character of a Python \<open>str\<close> is a \<open>char\<close> here, so the texts are those of code
  points below 256. \<open>docs_as_sets\<close> of the loader is named \<open>loader_docs_as_sets\<close>, the
  other class having an attribute of the same name.
\<close>

record data_loader =
  directory :: string
  doc_counter :: int
  loader_docs_as_sets :: "(int \<times> int list) list"
  shingle_size :: int

definition data_loader_init :: "string \<Rightarrow> int \<Rightarrow> data_loader" where
  \<comment> \<open>\<open>DataLoader.__init__\<close>, lines 40 to 44\<close>
  "data_loader_init dir k =
     \<lparr>directory = dir, doc_counter = 0, loader_docs_as_sets = [], shingle_size = k\<rparr>"

definition is_space :: "char \<Rightarrow> bool" where
  \<comment> \<open>the characters below 256 at which \<open>str.split()\<close> cuts\<close>
  "is_space c =
     (let n = (of_char c :: nat)
      in (9 \<le> n \<and> n \<le> 13) \<or> (28 \<le> n \<and> n \<le> 32) \<or> n = 133 \<or> n = 160)"

fun split_from :: "string \<Rightarrow> string \<Rightarrow> string list" where
  \<comment> \<open>the words of the rest of the text, \<open>word\<close> being the characters of the word under way\<close>
  "split_from [] word = (if word = [] then [] else [word])"
| "split_from (c # cs) word =
     (if is_space c then (if word = [] then split_from cs [] else word # split_from cs [])
      else split_from cs (word @ [c]))"

definition str_split :: "string \<Rightarrow> string list" where
  \<comment> \<open>\<open>text.split()\<close>: the maximal runs of characters that are not whitespace\<close>
  "str_split text = split_from text []"

fun str_join :: "string \<Rightarrow> string list \<Rightarrow> string" where
  \<comment> \<open>\<open>sep.join(ws)\<close>\<close>
  "str_join sep [] = []"
| "str_join sep [w] = w"
| "str_join sep (w # ws) = w @ sep @ str_join sep ws"

text \<open>
  \<open>binascii.crc32\<close> and the UTF-8 encoding are the standard library's: their composition
  is the parameter \<open>crc32_utf8\<close>, from a string to a Python integer.
\<close>

definition shingle_step ::
  "data_loader \<Rightarrow> (string \<Rightarrow> int) \<Rightarrow> string list \<Rightarrow> int \<Rightarrow> int list \<Rightarrow> int list" where
  \<comment> \<open>lines 90 to 92: the body of the loop, on the set built so far\<close>
  "shingle_step self crc32_utf8 words i shingles =
     (let shingle = str_join '' '' (py_slice words i (i + shingle_size self));
          crc = crc32_utf8 shingle AND 4294967295
      in set_add crc shingles)"

definition generate_shingles :: "data_loader \<Rightarrow> (string \<Rightarrow> int) \<Rightarrow> string \<Rightarrow> int list" where
  "generate_shingles self crc32_utf8 text =
     (let words = str_split text
      in fold (shingle_step self crc32_utf8 words)
           (py_range 0 (int (length words) - shingle_size self + 1)) [])"

section \<open>Facts about the Python operations\<close>

lemma for_append_map:
  "(\<And>x. x \<in> set xs \<Longrightarrow> body x = Inr (g x)) \<Longrightarrow> for_append body xs = Inr (map g xs)"
  by (induction xs) auto

lemma py_index_in_range:
  "0 \<le> i \<Longrightarrow> i < int (length xs) \<Longrightarrow> py_index xs i = Inr (xs ! nat i)"
  by (simp add: py_index_def)

lemma py_index_error: "py_index xs i = Inl e \<Longrightarrow> e = IndexError"
  by (auto simp: py_index_def split: if_splits)

lemma set_py_range: "set (py_range lo hi) = {lo..<hi}"
  by (auto simp: py_range_def)

lemma length_py_range: "length (py_range lo hi) = nat (hi - lo)"
  by (simp add: py_range_def)

lemma nth_py_range: "k < nat (hi - lo) \<Longrightarrow> py_range lo hi ! k = lo + int k"
  by (simp add: py_range_def)

lemma distinct_py_range: "distinct (py_range lo hi)"
  by (simp add: py_range_def)

lemma set_add_set: "set (set_add x s) = insert x (set s)"
  by (auto simp: set_add_def)

lemma set_add_distinct: "distinct s \<Longrightarrow> distinct (set_add x s)"
  by (auto simp: set_add_def)

section \<open>The division of two integers\<close>

lemma round_half_even_near:
  "\<bar>of_int (round_half_even x) - x\<bar> \<le> 1 / 2"
proof -
  have "of_int \<lfloor>x\<rfloor> \<le> x" "x < of_int \<lfloor>x\<rfloor> + 1" by linarith+
  then show ?thesis
    by (auto simp: round_half_even_def Let_def abs_le_iff)
qed

lemma round_half_even_le:
  assumes "x \<le> of_int n"
  shows "round_half_even x \<le> n"
proof -
  have f: "\<lfloor>x\<rfloor> \<le> n" using assms by (simp add: floor_le_iff) 
  have "\<lfloor>x\<rfloor> + 1 \<le> n" if "1 / 2 \<le> x - of_int \<lfloor>x\<rfloor>"
  proof -
    from that have "of_int \<lfloor>x\<rfloor> < x" by linarith
    with assms have "(of_int \<lfloor>x\<rfloor> :: rat) < of_int n" by linarith
    then show ?thesis by simp
  qed
  with f show ?thesis
    by (auto simp: round_half_even_def Let_def)
qed

lemma round_half_even_nonneg:
  assumes "0 \<le> x"
  shows "0 \<le> round_half_even x"
proof -
  have "0 \<le> \<lfloor>x\<rfloor>" using assms by simp
  then show ?thesis by (auto simp: round_half_even_def Let_def)
qed

lemma round_half_even_of_int: "round_half_even (of_int n) = n"
  by (simp add: round_half_even_def)

lemma bitlen_rat_bounds:
  assumes "0 < x"
  shows "(2::rat) powi (bitlen x - 1) \<le> of_int x" and "(of_int x :: rat) < 2 powi bitlen x"
proof -
  have one: "1 \<le> bitlen x"
    using assms bitlen_eq_zero_iff [of x] bitlen_nonneg [of x] by linarith
  from bitlen_bounds [OF assms] have lo: "2 ^ nat (bitlen x - 1) \<le> x"
    and hi: "x < 2 ^ nat (bitlen x)" by simp_all
  from lo have "(of_int (2 ^ nat (bitlen x - 1)) :: rat) \<le> of_int x"
    by (simp only: of_int_le_iff)
  then have "(2::rat) ^ nat (bitlen x - 1) \<le> of_int x" by simp
  then show "(2::rat) powi (bitlen x - 1) \<le> of_int x"
    using one by (simp add: power_int_nonneg_exp)
  from hi have "(of_int x :: rat) < of_int (2 ^ nat (bitlen x))"
    by (simp only: of_int_less_iff)
  then have "(of_int x :: rat) < 2 ^ nat (bitlen x)" by simp
  then show "(of_int x :: rat) < 2 powi bitlen x"
    using one by (simp add: power_int_nonneg_exp)
qed

lemma binary_exponent_bounds:
  assumes "0 < p" "0 < d"
  shows "2 powi binary_exponent p d \<le> (of_int p / of_int d :: rat)"
    and "(of_int p / of_int d :: rat) < 2 powi (binary_exponent p d + 1)"
proof -
  let ?q = "of_int p / of_int d :: rat"
  let ?k = "bitlen p - bitlen d"
  note p = bitlen_rat_bounds [OF assms(1)]
  note d = bitlen_rat_bounds [OF assms(2)]
  have dpos: "(0::rat) < of_int d" using assms by simp
  have lo: "(2::rat) powi (?k - 1) \<le> ?q"
  proof -
    have "(2::rat) powi (?k - 1) * of_int d \<le> 2 powi (?k - 1) * 2 powi bitlen d"
      using d(2) by (intro mult_left_mono) simp_all
    also have "\<dots> = 2 powi (bitlen p - 1)"
      by (simp flip: power_int_add)
    also have "\<dots> \<le> of_int p" by (rule p(1))
    finally show ?thesis using dpos by (simp add: pos_le_divide_eq)
  qed
  have hi: "?q < (2::rat) powi (?k + 1)"
  proof -
    have "of_int p < (2::rat) powi bitlen p" by (rule p(2))
    also have "\<dots> = 2 powi (?k + 1) * 2 powi (bitlen d - 1)"
      by (simp flip: power_int_add)
    also have "\<dots> \<le> 2 powi (?k + 1) * of_int d"
      using d(1) by (intro mult_left_mono) simp_all
    finally show ?thesis using dpos by (simp add: pos_divide_less_eq)
  qed
  show "2 powi binary_exponent p d \<le> ?q"
    using lo by (simp add: binary_exponent_def Let_def)
  show "?q < 2 powi (binary_exponent p d + 1)"
    using hi by (auto simp: binary_exponent_def Let_def not_le)
qed


lemma binary_exponent_unit:
  assumes "0 < p" "p \<le> d"
  shows "binary_exponent p d \<le> 0"
proof (rule ccontr)
  assume "\<not> binary_exponent p d \<le> 0"
  then have e: "1 \<le> binary_exponent p d" by simp
  have "(2::rat) \<le> 2 ^ nat (binary_exponent p d)"
    using e self_le_power [of "2::rat" "nat (binary_exponent p d)"] by simp
  also have "\<dots> = 2 powi binary_exponent p d"
    using e by (simp add: power_int_nonneg_exp)
  also have "\<dots> \<le> of_int p / of_int d"
    using assms by (intro binary_exponent_bounds) simp_all
  also have "\<dots> \<le> 1" using assms by simp
  finally show False by simp
qed

lemma ulp_unit:
  assumes "0 < p" "p \<le> d"
  shows "\<exists>n. 52 \<le> n \<and> (2::rat) powi (max (binary_exponent p d) (- 1022) - 52) = 1 / 2 ^ n"
proof -
  let ?e = "max (binary_exponent p d) (- 1022)"
  have "?e \<le> 0" using binary_exponent_unit [OF assms] by simp
  then have "(2::rat) powi (?e - 52) = 1 / 2 ^ nat (52 - ?e)" "52 \<le> nat (52 - ?e)"
    by (simp_all add: power_int_def inverse_eq_divide power_one_over)
  then show ?thesis by blast
qed

lemma nearest_double_unit:
  assumes "0 \<le> p" "p \<le> d" "0 < d"
  shows "0 \<le> nearest_double p d" and "nearest_double p d \<le> 1"
    and "\<bar>nearest_double p d - of_int p / of_int d\<bar> \<le> 1 / 2 ^ 53"
proof -
  let ?q = "of_int p / of_int d :: rat"
  have q: "0 \<le> ?q" "?q \<le> 1" using assms by simp_all
  have "0 \<le> nearest_double p d \<and> nearest_double p d \<le> 1 \<and>
        \<bar>nearest_double p d - ?q\<bar> \<le> 1 / 2 ^ 53"
  proof (cases "p = 0")
    case True
    then show ?thesis by (simp add: nearest_double_def)
  next
    case False
    with assms have pos: "0 < p" by simp
    from ulp_unit [OF pos assms(2)] obtain n where n: "52 \<le> n"
      and ulp: "(2::rat) powi (max (binary_exponent p d) (- 1022) - 52) = 1 / 2 ^ n"
      by blast
    define x where "x = ?q * 2 ^ n"
    define m where "m = round_half_even x"
    have qx: "?q = x / 2 ^ n" by (simp add: x_def)
    have nd: "nearest_double p d = of_int m / 2 ^ n"
      using False by (simp add: nearest_double_def Let_def ulp m_def x_def)
    have "0 \<le> x" unfolding x_def using q(1) by (intro mult_nonneg_nonneg) simp_all
    then have m0: "0 \<le> m" unfolding m_def by (rule round_half_even_nonneg)
    have "x \<le> 1 * 2 ^ n" unfolding x_def using q(2) by (intro mult_right_mono) simp_all
    then have "x \<le> of_int (2 ^ n)" by simp
    then have m1: "m \<le> 2 ^ n" unfolding m_def by (rule round_half_even_le)
    then have "(of_int m :: rat) \<le> of_int (2 ^ n)" by (simp only: of_int_le_iff)
    then have m1': "(of_int m :: rat) \<le> 2 ^ n" by simp
    have ge: "0 \<le> nearest_double p d" using m0 by (simp add: nd)
    have le: "nearest_double p d \<le> 1" using m1' by (simp add: nd divide_le_eq_1)
    have near: "\<bar>of_int m - x\<bar> \<le> 1 / 2" unfolding m_def by (rule round_half_even_near)
    have "nearest_double p d - ?q = (of_int m - x) / 2 ^ n"
      unfolding nd qx by (simp add: diff_divide_distrib)
    then have "\<bar>nearest_double p d - ?q\<bar> = \<bar>of_int m - x\<bar> / 2 ^ n"
      by (simp only: abs_divide) simp
    also have "\<dots> \<le> (1 / 2) / 2 ^ n"
      using near by (intro divide_right_mono) simp_all
    also have "\<dots> \<le> 1 / 2 ^ 53"
    proof -
      have "(2::rat) ^ 53 \<le> 2 ^ Suc n" using n by (intro power_increasing) simp_all
      then show ?thesis by (simp add: field_simps)
    qed
    finally have "\<bar>nearest_double p d - ?q\<bar> \<le> 1 / 2 ^ 53" .
    with ge le show ?thesis by simp
  qed
  then show "0 \<le> nearest_double p d" and "nearest_double p d \<le> 1"
    and "\<bar>nearest_double p d - of_int p / of_int d\<bar> \<le> 1 / 2 ^ 53"
    by simp_all
qed

lemma nearest_double_same:
  assumes "0 < d"
  shows "nearest_double d d = 1"
proof -
  have e: "binary_exponent d d = 0"
    using assms by (simp add: binary_exponent_def)
  have "(2::rat) powi (- 52) = 1 / 2 ^ 52"
    by (simp add: power_int_def inverse_eq_divide power_one_over)
  moreover have "round_half_even (2 ^ 52) = 2 ^ 52"
    using round_half_even_of_int [of "2 ^ 52"] by simp
  ultimately show ?thesis
    using assms by (simp add: nearest_double_def e)
qed

lemma py_truediv_unit:
  assumes "0 \<le> c" "c \<le> n" "0 < n"
  shows "py_truediv c n = Inr (nearest_double c n)"
proof -
  have "nearest_double c n \<le> 1" using assms by (rule nearest_double_unit)
  also have "(1::rat) < 2 ^ 1024" by simp
  finally have "\<not> 2 ^ 1024 \<le> nearest_double c n" by simp
  then show ?thesis using assms by (simp add: py_truediv_def)
qed

text \<open>
  The division at a few operands: a third, two thirds and a tenth as Python prints their
  exact values with \<open>as_integer_ratio\<close>, two ties that go to the even significand, a
  negative quotient and a zero divisor.
\<close>

lemma nearest_double_examples:
  "nearest_double 1 3 = 6004799503160661 / 18014398509481984"
  "nearest_double 2 3 = 6004799503160661 / 9007199254740992"
  "nearest_double 1 10 = 3602879701896397 / 36028797018963968"
  "nearest_double 9007199254740993 1 = 9007199254740992"
  "nearest_double 9007199254740995 1 = 9007199254740996"
  by code_simp+

lemma py_truediv_examples:
  "py_truediv 1 3 = Inr (6004799503160661 / 18014398509481984)"
  "py_truediv (- 1) 3 = Inr (- (6004799503160661 / 18014398509481984))"
  "py_truediv 7 0 = Inl ZeroDivisionError"
  by code_simp+

section \<open>The coefficient pools\<close>

text \<open>
  The loop keeps three facts about \<open>rand_set\<close>: its elements are distinct, they lie in
  the range of the draw, and there are at most \<open>num_hashes\<close> of them. What it returns
  follows by induction on the unfolding of the loop.
\<close>

lemma pick_loop_result:
  assumes "pick_loop n m rng rs = Some r"
    and "distinct rs" "set rs \<subseteq> {0..m}" "int (length rs) \<le> max 0 n"
  shows "(r = Inl ValueError \<and> m < 0) \<or>
         (\<exists>pool rng'. r = Inr (pool, rng') \<and> distinct pool \<and> set pool \<subseteq> {0..m} \<and>
            int (length pool) = max 0 n)"
proof -
  have "distinct rs \<longrightarrow> set rs \<subseteq> {0..m} \<longrightarrow> int (length rs) \<le> max 0 n \<longrightarrow>
          (r = Inl ValueError \<and> m < 0) \<or>
          (\<exists>pool rng'. r = Inr (pool, rng') \<and> distinct pool \<and> set pool \<subseteq> {0..m} \<and>
             int (length pool) = max 0 n)"
  proof (rule pick_loop.raw_induct [OF _ assms(1)], intro impI)
    fix pick n m rng rs r
    assume IH: "\<And>n m rng rs r. pick n m rng rs = Some r \<Longrightarrow>
        distinct rs \<longrightarrow> set rs \<subseteq> {0..m} \<longrightarrow> int (length rs) \<le> max 0 n \<longrightarrow>
          (r = Inl ValueError \<and> m < 0) \<or>
          (\<exists>pool rng'. r = Inr (pool, rng') \<and> distinct pool \<and> set pool \<subseteq> {0..m} \<and>
             int (length pool) = max 0 n)"
      and body: "(if int (length rs) < n
           then case randint 0 m rng of
                  Inl e \<Rightarrow> Some (Inl e)
                | Inr (rand_index, rng') \<Rightarrow>
                    pick n m rng' (if rand_index \<notin> set rs then set_add rand_index rs else rs)
           else Some (Inr (rs, rng))) = Some r"
      and inv: "distinct rs" "set rs \<subseteq> {0..m}" "int (length rs) \<le> max 0 n"
    show "(r = Inl ValueError \<and> m < 0) \<or>
          (\<exists>pool rng'. r = Inr (pool, rng') \<and> distinct pool \<and> set pool \<subseteq> {0..m} \<and>
             int (length pool) = max 0 n)"
    proof (cases "int (length rs) < n")
      case False
      with body inv show ?thesis by auto
    next
      case True
      show ?thesis
      proof (cases "m < 0")
        case True
        with body \<open>int (length rs) < n\<close> show ?thesis by (auto simp: randint_def)
      next
        case False
        define x where "x = shd rng mod (m + 1)"
        have x: "0 \<le> x" "x \<le> m"
          using False pos_mod_bound [of "m + 1" "shd rng"] by (simp_all add: x_def)
        define rs' where "rs' = (if x \<notin> set rs then set_add x rs else rs)"
        have call: "pick n m (stl rng) rs' = Some r"
          using body True False by (auto simp: randint_def x_def rs'_def split: if_splits)
        have "distinct rs'" using inv(1) by (simp add: rs'_def set_add_distinct)
        moreover have "set rs' \<subseteq> {0..m}" using inv(2) x by (auto simp: rs'_def set_add_set)
        moreover have "int (length rs') \<le> max 0 n"
          using True by (auto simp: rs'_def set_add_def)
        ultimately show ?thesis using IH [OF call] by blast
      qed
    qed
  qed
  with assms(2-) show ?thesis by blast
qed

lemma pick_loop_returns:
  assumes "0 \<le> m" "distinct rs"
    and "nat n \<le> card (set rs \<union> (\<lambda>x. x mod (m + 1)) ` set (stake k rng))"
  shows "\<exists>r. pick_loop n m rng rs = Some r"
  using assms(2,3)
proof (induction k arbitrary: rng rs)
  case 0
  then have "nat n \<le> length rs" by (simp add: distinct_card)
  then have "\<not> int (length rs) < n" by linarith
  then show ?case by (subst pick_loop.simps) simp
next
  case (Suc k)
  show ?case
  proof (cases "int (length rs) < n")
    case False
    then show ?thesis by (subst pick_loop.simps) simp
  next
    case True
    define x where "x = shd rng mod (m + 1)"
    let ?rs = "if x \<notin> set rs then set_add x rs else rs"
    have "distinct ?rs" using Suc.prems(1) by (simp add: set_add_distinct)
    moreover have "set ?rs \<union> (\<lambda>x. x mod (m + 1)) ` set (stake k (stl rng)) =
                   set rs \<union> (\<lambda>x. x mod (m + 1)) ` set (stake (Suc k) rng)"
      by (auto simp: set_add_set x_def)
    ultimately have "\<exists>r. pick_loop n m (stl rng) ?rs = Some r"
      using Suc.IH [of ?rs "stl rng"] Suc.prems(2) by simp
    then show ?thesis
      using True assms(1) unfolding x_def
      by (subst pick_loop.simps) (simp add: randint_def split: if_splits)
  qed
qed

lemma pick_loop_diverges:
  assumes "0 \<le> m" "m + 1 < n" "distinct rs" "set rs \<subseteq> {0..m}"
  shows "pick_loop n m rng rs = None"
proof (rule ccontr)
  assume "pick_loop n m rng rs \<noteq> None"
  then obtain r where ret: "pick_loop n m rng rs = Some r" by blast
  have "0 \<le> m \<longrightarrow> m + 1 < n \<longrightarrow> distinct rs \<longrightarrow> set rs \<subseteq> {0..m} \<longrightarrow> False"
  proof (rule pick_loop.raw_induct [OF _ ret], intro impI)
    fix pick n m rng rs r
    assume IH: "\<And>n m rng rs r. pick n m rng rs = Some r \<Longrightarrow>
        0 \<le> m \<longrightarrow> m + 1 < n \<longrightarrow> distinct rs \<longrightarrow> set rs \<subseteq> {0..m} \<longrightarrow> False"
      and body: "(if int (length rs) < n
           then case randint 0 m rng of
                  Inl e \<Rightarrow> Some (Inl e)
                | Inr (rand_index, rng') \<Rightarrow>
                    pick n m rng' (if rand_index \<notin> set rs then set_add rand_index rs else rs)
           else Some (Inr (rs, rng))) = Some r"
      and inv: "0 \<le> m" "m + 1 < n" "distinct rs" "set rs \<subseteq> {0..m}"
    have "card (set rs) \<le> card {0..m}" by (rule card_mono) (use inv in simp_all)
    then have "int (length rs) \<le> m + 1"
      using inv(1,3) by (simp add: distinct_card)
    then have lt: "int (length rs) < n" using inv(2) by simp
    define x where "x = shd rng mod (m + 1)"
    have x: "0 \<le> x" "x \<le> m"
      using inv(1) pos_mod_bound [of "m + 1" "shd rng"] by (simp_all add: x_def)
    define rs' where "rs' = (if x \<notin> set rs then set_add x rs else rs)"
    have call: "pick n m (stl rng) rs' = Some r"
      using body lt inv(1) by (auto simp: randint_def x_def rs'_def split: if_splits)
    have "distinct rs'" using inv(3) by (simp add: rs'_def set_add_distinct)
    moreover have "set rs' \<subseteq> {0..m}" using inv(4) x by (auto simp: rs'_def set_add_set)
    ultimately show False using IH [OF call] inv(1,2) by blast
  qed
  with assms show False by blast
qed

lemma pick_loop_consumes:
  assumes "pick_loop n m rng rs = Some (Inr (pool, rng'))"
  shows "\<exists>j. rng' = sdrop j rng"
proof -
  have "\<forall>pool rng'. r = Inr (pool, rng') \<longrightarrow> (\<exists>j. rng' = sdrop j rng)"
    if "pick_loop n m rng rs = Some r" for r
  proof (rule pick_loop.raw_induct [OF _ that], intro allI impI)
    fix pick n m rng rs r pool rng'
    assume IH: "\<And>n m rng rs r. pick n m rng rs = Some r \<Longrightarrow>
        \<forall>pool rng'. r = Inr (pool, rng') \<longrightarrow> (\<exists>j. rng' = sdrop j rng)"
      and body: "(if int (length rs) < n
           then case randint 0 m rng of
                  Inl e \<Rightarrow> Some (Inl e)
                | Inr (rand_index, rng') \<Rightarrow>
                    pick n m rng' (if rand_index \<notin> set rs then set_add rand_index rs else rs)
           else Some (Inr (rs, rng))) = Some r"
      and r: "r = Inr (pool, rng')"
    show "\<exists>j. rng' = sdrop j rng"
    proof (cases "int (length rs) < n")
      case False
      with body r have "rng' = sdrop 0 rng" by simp
      then show ?thesis ..
    next
      case True
      with body r obtain rs' where "pick n m (stl rng) rs' = Some r"
        by (auto simp: randint_def split: if_splits)
      from IH [OF this] r obtain j where "rng' = sdrop j (stl rng)" by blast
      then have "rng' = sdrop (Suc j) rng" by simp
      then show ?thesis ..
    qed
  qed
  with assms show ?thesis by blast
qed

lemma pick_random_coeffs_result:
  assumes "pick_random_coeffs n (2 ^ 32 - 1) rng = Some r"
  shows "\<exists>pool rng'. r = Inr (pool, rng') \<and> int (length pool) = max 0 n \<and> distinct pool \<and>
           set pool \<subseteq> {0..2 ^ 32 - 1}"
  using pick_loop_result [of n "2 ^ 32 - 1" rng "[]" r] assms
  by (auto simp: pick_random_coeffs_def)

lemma init_result:
  assumes "init docs n threshold rng = Some r"
  shows "\<exists>self rng'. r = Inr (self, rng') \<and>
           docs_as_sets self = docs \<and> num_hashes self = n \<and>
           similarity_threshold self = threshold \<and> num_docs self = int (length docs) \<and>
           max_shingle self = 2 ^ 32 - 1 \<and> next_prime self = 4294967311 \<and>
           int (length (coeff_a self)) = max 0 n \<and> distinct (coeff_a self) \<and>
           set (coeff_a self) \<subseteq> {0..2 ^ 32 - 1} \<and>
           int (length (coeff_b self)) = max 0 n \<and> distinct (coeff_b self) \<and>
           set (coeff_b self) \<subseteq> {0..2 ^ 32 - 1}"
proof -
  from assms obtain ra where ra: "pick_random_coeffs n (2 ^ 32 - 1) rng = Some ra"
    by (auto simp: init_def split: option.splits)
  from pick_random_coeffs_result [OF ra] obtain a rng1 where
    a: "ra = Inr (a, rng1)" "int (length a) = max 0 n" "distinct a" "set a \<subseteq> {0..2 ^ 32 - 1}"
    by blast
  from assms ra a(1) obtain rb where rb: "pick_random_coeffs n (2 ^ 32 - 1) rng1 = Some rb"
    by (auto simp: init_def split: option.splits)
  from pick_random_coeffs_result [OF rb] obtain b rng2 where
    b: "rb = Inr (b, rng2)" "int (length b) = max 0 n" "distinct b" "set b \<subseteq> {0..2 ^ 32 - 1}"
    by blast
  from assms ra rb a b show ?thesis
    by (auto simp: init_def)
qed

lemma init_establishes:
  assumes "init docs n threshold rng = Some (Inr (self, rng'))"
  shows "next_prime self = 4294967311"
    and "num_hashes self \<le> int (length (coeff_a self))"
    and "num_hashes self \<le> int (length (coeff_b self))"
    and "num_docs self = int (length (docs_as_sets self))"
  using init_result [OF assms] by auto

lemma init_returns:
  assumes "\<And>j. \<exists>k. nat n \<le> card ((\<lambda>x. x mod 2 ^ 32) ` set (stake k (sdrop j rng)))"
  shows "\<exists>r. init docs n threshold rng = Some r"
proof -
  have ret: "\<exists>r. pick_random_coeffs n (2 ^ 32 - 1) (sdrop j rng) = Some r" for j
  proof -
    from assms [of j] obtain k where
      "nat n \<le> card ((\<lambda>x. x mod 2 ^ 32) ` set (stake k (sdrop j rng)))" ..
    then show ?thesis
      using pick_loop_returns [of "2 ^ 32 - 1" "[]" n k "sdrop j rng"]
      by (simp add: pick_random_coeffs_def)
  qed
  from ret [of 0] obtain ra where ra: "pick_random_coeffs n (2 ^ 32 - 1) rng = Some ra"
    by auto
  from pick_random_coeffs_result [OF ra] obtain a rng1 where a: "ra = Inr (a, rng1)" by blast
  from ra a pick_loop_consumes obtain j where "rng1 = sdrop j rng"
    unfolding pick_random_coeffs_def by blast
  with ret [of j] obtain rb where rb: "pick_random_coeffs n (2 ^ 32 - 1) rng1 = Some rb"
    by auto
  from pick_random_coeffs_result [OF rb] obtain b rng2 where b: "rb = Inr (b, rng2)" by blast
  from ra rb a b show ?thesis by (simp add: init_def)
qed

section \<open>Signatures\<close>

lemma hash_code_ok:
  assumes "0 \<le> i" "i < int (length (coeff_a self))" "i < int (length (coeff_b self))"
    and "next_prime self \<noteq> 0"
  shows "hash_code self i s =
           Inr ((coeff_a self ! nat i * s + coeff_b self ! nat i) mod next_prime self)"
  using assms by (simp add: hash_code_def py_index_in_range py_mod_def)

lemma Min_insert_min:
  "finite A \<Longrightarrow> Min (insert (min x m) A) = Min (insert m (insert x A))"
  for x m :: int
  by (cases "A = {}") (auto simp: min.commute min.left_commute min.assoc)

lemma min_loop_ok:
  "(\<And>s. s \<in> set ss \<Longrightarrow> hash_code self i s = Inr (h s)) \<Longrightarrow>
     min_loop self i ss m = Inr (Min (insert m (h ` set ss)))"
proof (induction ss arbitrary: m)
  case Nil
  then show ?case by simp
next
  case (Cons s ss)
  have "(if h s < m then h s else m) = min (h s) m" by (simp add: min_def)
  with Cons show ?case
    by (simp add: Min_insert_min insert_commute)
qed

lemma fold_min_Min:
  "fold (\<lambda>s slot. if h s < slot then h s else slot) ss m = Min (insert m (h ` set ss))"
  for h :: "'a \<Rightarrow> int"
proof (induction ss arbitrary: m)
  case Nil
  then show ?case by simp
next
  case (Cons s ss)
  have "(if h s < m then h s else m) = min (h s) m" by (simp add: min_def)
  with Cons show ?case
    by (simp add: Min_insert_min insert_commute)
qed

lemma Min_insert_above:
  fixes m :: int
  assumes "finite H" "H \<noteq> {}" "\<And>x. x \<in> H \<Longrightarrow> x < m"
  shows "Min (insert m H) = Min H"
proof -
  have "Min H \<in> H" using assms(1,2) by (rule Min_in)
  then have "Min H < m" by (rule assms(3))
  moreover have "Min (insert m H) = min m (Min H)"
    using assms(1,2) by (rule Min_insert)
  ultimately show ?thesis by (simp add: min_def)
qed

lemma slot_value:
  fixes p :: int
  assumes "0 < p"
  shows "Min (insert (p + 1) ((\<lambda>s. (a * s + b) mod p) ` set ss)) =
           (if ss = [] then p + 1 else Min ((\<lambda>s. (a * s + b) mod p) ` set ss))"
proof (cases "ss = []")
  case True
  then show ?thesis by simp
next
  case False
  have "Min (insert (p + 1) ((\<lambda>s. (a * s + b) mod p) ` set ss)) =
          Min ((\<lambda>s. (a * s + b) mod p) ` set ss)"
  proof (rule Min_insert_above)
    fix x assume "x \<in> (\<lambda>s. (a * s + b) mod p) ` set ss"
    then obtain s where "x = (a * s + b) mod p" by blast
    then have "x < p" using assms by simp
    then show "x < p + 1" by simp
  qed (use False in simp_all)
  with False show ?thesis by simp
qed

lemma doc_signature_ok:
  assumes "num_hashes self \<le> int (length (coeff_a self))"
    and "num_hashes self \<le> int (length (coeff_b self))"
    and "next_prime self \<noteq> 0"
  shows "doc_signature self ss =
           Inr (map (\<lambda>i. Min (insert (next_prime self + 1)
                  ((\<lambda>s. (coeff_a self ! nat i * s + coeff_b self ! nat i) mod next_prime self) ` set ss)))
                (py_range 0 (num_hashes self)))"
  unfolding doc_signature_def signature_slot_def
proof (rule for_append_map)
  fix i assume "i \<in> set (py_range 0 (num_hashes self))"
  then have i: "0 \<le> i" "i < num_hashes self" by (simp_all add: set_py_range)
  show "min_loop self i ss (next_prime self + 1) =
          Inr (Min (insert (next_prime self + 1)
            ((\<lambda>s. (coeff_a self ! nat i * s + coeff_b self ! nat i) mod next_prime self) ` set ss)))"
    by (rule min_loop_ok, rule hash_code_ok) (use i assms in simp_all)
qed

lemma generate_ok:
  assumes "num_hashes self \<le> int (length (coeff_a self))"
    and "num_hashes self \<le> int (length (coeff_b self))"
    and "next_prime self \<noteq> 0"
  shows "generate_minhash_signatures self =
           Inr (map (\<lambda>(doc_id, ss).
                  map (\<lambda>i. Min (insert (next_prime self + 1)
                    ((\<lambda>s. (coeff_a self ! nat i * s + coeff_b self ! nat i) mod next_prime self) ` set ss)))
                  (py_range 0 (num_hashes self)))
                (docs_as_sets self))"
  unfolding generate_minhash_signatures_def
  by (rule for_append_map) (auto simp: doc_signature_ok [OF assms])

section \<open>Similarities\<close>

lemma count_loop_commute: "count_loop sig1 sig2 ks c = count_loop sig2 sig1 ks c"
proof (induction ks arbitrary: c)
  case Nil
  then show ?case by simp
next
  case (Cons k ks)
  show ?case
  proof (cases "py_index sig1 k")
    case (Inl e)
    then show ?thesis by (auto dest: py_index_error split: sum.splits)
  next
    case x: (Inr x)
    show ?thesis
    proof (cases "py_index sig2 k")
      case (Inl e)
      then show ?thesis using x by (auto dest: py_index_error)
    next
      case (Inr y)
      then show ?thesis using x Cons.IH [of "c + (if x = y then 1 else 0)"]
        by (simp add: eq_commute [of x y])
    qed
  qed
qed

lemma count_loop_ok:
  "(\<And>k. k \<in> set ks \<Longrightarrow> 0 \<le> k \<and> k < int (length sig1) \<and> k < int (length sig2)) \<Longrightarrow>
     count_loop sig1 sig2 ks c =
       Inr (c + int (length (filter (\<lambda>k. sig1 ! nat k = sig2 ! nat k) ks)))"
  by (induction ks arbitrary: c) (simp_all add: py_index_in_range)

lemma matches_py_range:
  "length (filter (\<lambda>k. sig1 ! nat k = sig2 ! nat k) (py_range 0 n)) =
     card {k. k < nat n \<and> sig1 ! k = sig2 ! k}"
proof -
  have "py_range 0 n = map int [0..<nat n]"
    by (rule nth_equalityI) (simp_all add: length_py_range nth_py_range)
  then have "length (filter (\<lambda>k. sig1 ! nat k = sig2 ! nat k) (py_range 0 n)) =
               length (filter (\<lambda>k. sig1 ! k = sig2 ! k) [0..<nat n])"
    by (simp add: filter_map comp_def)
  also have "\<dots> = card {k. k < nat n \<and> sig1 ! k = sig2 ! k}"
    by (simp add: length_filter_conv_card cong: conj_cong)
  finally show ?thesis .
qed

lemma matches_le: "card {k. k < n \<and> P k} \<le> n"
proof -
  have "card {k. k < n \<and> P k} \<le> card {k. k < n}"
    by (rule card_mono) auto
  then show ?thesis by simp
qed

lemma pair_similarity_ok:
  assumes "num_hashes self \<le> int (length sig1)" "num_hashes self \<le> int (length sig2)"
    and "0 < num_hashes self"
  shows "pair_similarity self sig1 sig2 =
           Inr (nearest_double (int (card {k. k < nat (num_hashes self) \<and> sig1 ! k = sig2 ! k})) (num_hashes self))"
proof -
  have "count_loop sig1 sig2 (py_range 0 (num_hashes self)) 0 =
          Inr (0 + int (length (filter (\<lambda>k. sig1 ! nat k = sig2 ! nat k)
                                  (py_range 0 (num_hashes self)))))"
    by (rule count_loop_ok) (use assms in \<open>auto simp: set_py_range\<close>)
  moreover have "int (card {k. k < nat (num_hashes self) \<and> sig1 ! k = sig2 ! k}) \<le>
                   num_hashes self"
    using matches_le [of "nat (num_hashes self)" "\<lambda>k. sig1 ! k = sig2 ! k"] assms(3)
    by linarith
  ultimately show ?thesis
    using assms(3) by (simp add: pair_similarity_def matches_py_range py_truediv_unit)
qed

lemma zero_hashes_division:
  "num_hashes self = 0 \<Longrightarrow> pair_similarity self sig1 sig2 = Inl ZeroDivisionError"
  by (simp add: pair_similarity_def py_range_def py_truediv_def)

lemma calculate_similarities_ok:
  assumes "num_docs self \<le> int (length signatures)"
    and "\<And>s. s \<in> set signatures \<Longrightarrow> num_hashes self \<le> int (length s)"
    and "0 < num_hashes self"
  shows "calculate_similarities self signatures =
           Inr (concat (map (\<lambda>i. map (\<lambda>j. (i, j,
                  nearest_double (int (card {k. k < nat (num_hashes self) \<and>
                                   signatures ! nat i ! k = signatures ! nat j ! k})) (num_hashes self)))
                (py_range (i + 1) (num_docs self))) (py_range 0 (num_docs self))))"
proof -
  have row: "outer_row self signatures i =
      Inr (map (\<lambda>j. (i, j,
             nearest_double (int (card {k. k < nat (num_hashes self) \<and>
                              signatures ! nat i ! k = signatures ! nat j ! k})) (num_hashes self)))
           (py_range (i + 1) (num_docs self)))"
    if "i \<in> set (py_range 0 (num_docs self))" for i
  proof -
    from that have i: "0 \<le> i" "i < int (length signatures)"
      using assms(1) by (simp_all add: set_py_range)
    then have si: "signatures ! nat i \<in> set signatures" by simp
    have "for_append (inner_pair self signatures i (signatures ! nat i))
            (py_range (i + 1) (num_docs self)) =
          Inr (map (\<lambda>j. (i, j,
             nearest_double (int (card {k. k < nat (num_hashes self) \<and>
                              signatures ! nat i ! k = signatures ! nat j ! k})) (num_hashes self)))
           (py_range (i + 1) (num_docs self)))"
    proof (rule for_append_map)
      fix j assume "j \<in> set (py_range (i + 1) (num_docs self))"
      then have j: "0 \<le> j" "j < int (length signatures)"
        using i assms(1) by (simp_all add: set_py_range)
      then have sj: "signatures ! nat j \<in> set signatures" by simp
      show "inner_pair self signatures i (signatures ! nat i) j =
              Inr (i, j,
                nearest_double (int (card {k. k < nat (num_hashes self) \<and>
                                 signatures ! nat i ! k = signatures ! nat j ! k})) (num_hashes self))"
        using j by (simp add: inner_pair_def py_index_in_range
            pair_similarity_ok [OF assms(2) [OF si] assms(2) [OF sj] assms(3)])
    qed
    then show ?thesis using i by (simp add: outer_row_def py_index_in_range)
  qed
  show ?thesis
    unfolding calculate_similarities_def
    by (subst for_append_map [where g = "\<lambda>i. map (\<lambda>j. (i, j,
             nearest_double (int (card {k. k < nat (num_hashes self) \<and>
                              signatures ! nat i ! k = signatures ! nat j ! k})) (num_hashes self)))
           (py_range (i + 1) (num_docs self))"]) (simp_all add: row)
qed

lemma pairs_distinct:
  "distinct xs \<Longrightarrow> (\<And>i. distinct (g i)) \<Longrightarrow>
     distinct (concat (map (\<lambda>i. map (Pair i) (g i)) xs))"
  by (induction xs) (auto simp: distinct_map inj_on_def)

lemma pairs_set:
  "set (concat (map (\<lambda>i. map (Pair i) (py_range (i + 1) n)) (py_range 0 n))) =
     {(i, j). 0 \<le> i \<and> i < j \<and> j < n}"
  by (force simp: set_py_range)

lemma triples_mem:
  "(a, b, s) \<in> set (concat (map (\<lambda>i. map (\<lambda>j. (i, j, f i j)) (py_range (i + 1) n))
                              (py_range 0 n))) \<longleftrightarrow>
     0 \<le> a \<and> a < b \<and> b < n \<and> s = f a b"
  by (force simp: set_py_range)

lemma triples_indices:
  "map (\<lambda>(i, j, s). (i, j))
     (concat (map (\<lambda>i. map (\<lambda>j. (i, j, f i j)) (py_range (i + 1) n)) (py_range 0 n))) =
   concat (map (\<lambda>i. map (Pair i) (py_range (i + 1) n)) (py_range 0 n))"
  by (simp add: map_concat comp_def)

section \<open>Shingles\<close>

lemma fold_shingle_step_length:
  "length (fold (shingle_step self crc words) is acc) \<le> length acc + length is"
proof (induction "is" arbitrary: acc)
  case Nil
  then show ?case by simp
next
  case (Cons i "is")
  have "length (shingle_step self crc words i acc) \<le> Suc (length acc)"
    by (simp add: shingle_step_def set_add_def Let_def)
  with Cons [of "shingle_step self crc words i acc"] show ?case by simp
qed

lemma fold_shingle_step_distinct:
  "distinct acc \<Longrightarrow> distinct (fold (shingle_step self crc words) is acc)"
  by (induction "is" arbitrary: acc) (simp_all add: shingle_step_def set_add_distinct Let_def)

section \<open>The claims\<close>

subsection \<open>C1: every slot is the minimum of its hash function\<close>

text \<open>
  C1. For an object whose prime is 4294967311 and whose coefficient lists have an entry
  for every hash function, \<open>generate_minhash_signatures\<close> returns one signature per
  document, and slot \<open>i\<close> of the signature is what the walk over the shingle set
  leaves: started at the sentinel 4294967312, replaced by \<open>(a\<^sub>i * s + b\<^sub>i) mod p\<close>
  whenever that is smaller. This is the minimum of the hash values over the shingle set,
  and the sentinel when the set is empty.
\<close>

theorem minhash_slot_is_minimum:
  assumes "next_prime self = 4294967311"
    and "num_hashes self \<le> int (length (coeff_a self))"
    and "num_hashes self \<le> int (length (coeff_b self))"
  shows "\<exists>signatures. generate_minhash_signatures self = Inr signatures \<and>
           length signatures = length (docs_as_sets self) \<and>
           (\<forall>d < length (docs_as_sets self). \<forall>i < nat (num_hashes self).
              signatures ! d ! i =
                fold (\<lambda>s slot. if (coeff_a self ! i * s + coeff_b self ! i) mod 4294967311 < slot
                                then (coeff_a self ! i * s + coeff_b self ! i) mod 4294967311
                                else slot)
                  (snd (docs_as_sets self ! d)) (4294967311 + 1) \<and>
              signatures ! d ! i =
                (if snd (docs_as_sets self ! d) = [] then 4294967311 + 1
                 else Min ((\<lambda>s. (coeff_a self ! i * s + coeff_b self ! i) mod 4294967311) `
                             set (snd (docs_as_sets self ! d)))))"
proof -
  let ?h = "\<lambda>i s. (coeff_a self ! i * s + coeff_b self ! i) mod 4294967311"
  let ?sigs = "map (\<lambda>(doc_id, ss).
                 map (\<lambda>i. Min (insert (next_prime self + 1)
                   ((\<lambda>s. (coeff_a self ! nat i * s + coeff_b self ! nat i) mod next_prime self) `
                      set ss)))
                 (py_range 0 (num_hashes self)))
               (docs_as_sets self)"
  have gen: "generate_minhash_signatures self = Inr ?sigs"
    using assms by (intro generate_ok) simp_all
  have slot: "?sigs ! d ! i = Min (insert (4294967311 + 1) (?h i ` set (snd (docs_as_sets self ! d))))"
    if "d < length (docs_as_sets self)" "i < nat (num_hashes self)" for d i
    using that assms(1)
    by (simp add: case_prod_beta length_py_range nth_py_range)
  have pt: "?sigs ! d ! i = fold (\<lambda>s slot. if ?h i s < slot then ?h i s else slot)
                          (snd (docs_as_sets self ! d)) (4294967311 + 1) \<and>
        ?sigs ! d ! i = (if snd (docs_as_sets self ! d) = [] then 4294967311 + 1
                         else Min (?h i ` set (snd (docs_as_sets self ! d))))"
    if "d < length (docs_as_sets self)" "i < nat (num_hashes self)" for d i
    unfolding slot [OF that] fold_min_Min
    using slot_value [of 4294967311 "coeff_a self ! i" "coeff_b self ! i"
        "snd (docs_as_sets self ! d)"]
    by simp
  have len: "length ?sigs = length (docs_as_sets self)" by simp
  from gen len pt show ?thesis by blast
qed

text \<open>
  C1 on two documents and two hash functions, \<open>2 * s + 1\<close> and \<open>7 * s + 4\<close>: the
  document with the shingles 3 and 5 has the signature 7, 25, the empty document has the
  sentinel twice.
\<close>

theorem minhash_slot_is_minimum_witness:
  "\<exists>signatures.
     generate_minhash_signatures
       \<lparr>docs_as_sets = [(1, [3, 5]), (2, [])], num_hashes = 2, similarity_threshold = 1 / 2,
        num_docs = 2, max_shingle = 4294967295, next_prime = 4294967311,
        coeff_a = [2, 7], coeff_b = [1, 4]\<rparr> = Inr signatures \<and>
     length signatures = 2 \<and>
     signatures ! 0 ! 0 = 7 \<and> signatures ! 0 ! 1 = 25 \<and>
     signatures ! 1 ! 0 = 4294967312 \<and> signatures ! 1 ! 1 = 4294967312"
proof -
  let ?self = "\<lparr>docs_as_sets = [(1, [3, 5]), (2, [])], num_hashes = 2,
        similarity_threshold = 1 / 2,
        num_docs = 2, max_shingle = 4294967295, next_prime = 4294967311,
        coeff_a = [2, 7], coeff_b = [1, 4]\<rparr>"
  have h: "next_prime ?self = 4294967311"
    "num_hashes ?self \<le> int (length (coeff_a ?self))"
    "num_hashes ?self \<le> int (length (coeff_b ?self))"
    by simp_all
  show ?thesis
    using minhash_slot_is_minimum [OF h]
    by (auto simp add: numeral_2_eq_2 All_less_Suc)
qed

subsection \<open>C2: one triple for every pair of positions\<close>

text \<open>
  C2. Given as many signatures as the object has documents, each of \<open>num_hashes\<close>
  entries, with \<open>num_hashes\<close> positive, \<open>calculate_similarities\<close> returns a list of
  triples in which every pair of positions \<open>i < j\<close> occurs exactly once, and no other
  pair; the third component is the number of slots \<open>k < num_hashes\<close> where the two
  signatures agree, divided by \<open>num_hashes\<close> as \<open>/\<close> divides two integers: it is the
  double nearest to the quotient, no further from it than \<open>2\<^sup>-\<^sup>5\<^sup>3\<close>. The two indices are
  positions in the list of signatures; the document identifiers are not read.
\<close>

theorem one_triple_per_pair:
  assumes "num_docs self = int (length signatures)"
    and "\<forall>s \<in> set signatures. int (length s) = num_hashes self"
    and "0 < num_hashes self"
  shows "\<exists>sims. calculate_similarities self signatures = Inr sims \<and>
           distinct (map (\<lambda>(i, j, sim). (i, j)) sims) \<and>
           set (map (\<lambda>(i, j, sim). (i, j)) sims) =
             {(i, j). 0 \<le> i \<and> i < j \<and> j < int (length signatures)} \<and>
           (\<forall>(i, j, sim) \<in> set sims.
              sim = nearest_double
                      (int (card {k. k < nat (num_hashes self) \<and>
                                     signatures ! nat i ! k = signatures ! nat j ! k}))
                      (num_hashes self) \<and>
              \<bar>sim - of_nat (card {k. k < nat (num_hashes self) \<and>
                                       signatures ! nat i ! k = signatures ! nat j ! k}) /
                     of_int (num_hashes self)\<bar> \<le> 1 / 2 ^ 53)"
proof -
  define c where "c = (\<lambda>i j. card {k. k < nat (num_hashes self) \<and>
                                      signatures ! nat i ! k = signatures ! nat j ! k})"
  let ?sims = "concat (map (\<lambda>i. map (\<lambda>j. (i, j, nearest_double (int (c i j)) (num_hashes self)))
                                 (py_range (i + 1) (num_docs self)))
                 (py_range 0 (num_docs self)))"
  have calc: "calculate_similarities self signatures = Inr ?sims"
    unfolding c_def using assms by (intro calculate_similarities_ok) simp_all
  have idx: "map (\<lambda>(i, j, sim). (i, j)) ?sims =
               concat (map (\<lambda>i. map (Pair i) (py_range (i + 1) (num_docs self)))
                 (py_range 0 (num_docs self)))"
    by (rule triples_indices)
  have d: "distinct (map (\<lambda>(i, j, sim). (i, j)) ?sims)"
    unfolding idx by (intro pairs_distinct distinct_py_range)
  have s: "set (map (\<lambda>(i, j, sim). (i, j)) ?sims) =
             {(i, j). 0 \<le> i \<and> i < j \<and> j < int (length signatures)}"
    unfolding idx using assms(1) by (simp only: pairs_set)
  have near: "\<bar>nearest_double (int (c i j)) (num_hashes self) -
               of_nat (c i j) / of_int (num_hashes self)\<bar> \<le> 1 / 2 ^ 53" for i j
  proof -
    have "c i j \<le> nat (num_hashes self)" unfolding c_def by (rule matches_le)
    then have "int (c i j) \<le> num_hashes self" using assms(3) by linarith
    from nearest_double_unit(3) [OF _ this assms(3)] show ?thesis by simp
  qed
  have v: "\<forall>(i, j, sim) \<in> set ?sims.
             sim = nearest_double (int (c i j)) (num_hashes self) \<and>
             \<bar>sim - of_nat (c i j) / of_int (num_hashes self)\<bar> \<le> 1 / 2 ^ 53"
    using near by (auto simp: set_py_range)
  from calc d s v show ?thesis unfolding c_def by blast
qed

text \<open>
  C2 on three signatures of three slots, any two of which agree in one slot: the pairs
  are (0, 1), (0, 2) and (1, 2), each once, and the estimate of the first pair is the
  double nearest to a third.
\<close>

theorem one_triple_per_pair_witness:
  "\<exists>sims.
     calculate_similarities
       \<lparr>docs_as_sets = [(1, [3]), (2, [5]), (3, [8])], num_hashes = 3,
        similarity_threshold = 1 / 2, num_docs = 3, max_shingle = 4294967295,
        next_prime = 4294967311, coeff_a = [2, 7, 9], coeff_b = [1, 4, 6]\<rparr>
       [[1, 2, 3], [1, 5, 6], [7, 5, 3]] = Inr sims \<and>
     distinct (map (\<lambda>(i, j, sim). (i, j)) sims) \<and>
     set (map (\<lambda>(i, j, sim). (i, j)) sims) = {(i, j). 0 \<le> i \<and> i < j \<and> j < 3} \<and>
     (0, 1, 6004799503160661 / 18014398509481984) \<in> set sims"
proof -
  let ?self = "\<lparr>docs_as_sets = [(1, [3]), (2, [5]), (3, [8])], num_hashes = 3,
        similarity_threshold = 1 / 2, num_docs = 3, max_shingle = 4294967295,
        next_prime = 4294967311, coeff_a = [2, 7, 9], coeff_b = [1, 4, 6]\<rparr>"
  let ?sigs = "[[1, 2, 3], [1, 5, 6], [7, 5, 3 :: int]]"
  have h: "num_docs ?self = int (length ?sigs)"
    "\<forall>s \<in> set ?sigs. int (length s) = num_hashes ?self"
    "0 < num_hashes ?self"
    by simp_all
  from one_triple_per_pair [OF h] obtain sims where
    calc: "calculate_similarities ?self ?sigs = Inr sims"
    and d: "distinct (map (\<lambda>(i, j, sim). (i, j)) sims)"
    and s: "set (map (\<lambda>(i, j, sim). (i, j)) sims) =
       {(i, j). 0 \<le> i \<and> i < j \<and> j < int (length ?sigs)}"
    and v: "\<forall>(i, j, sim) \<in> set sims.
       sim = nearest_double
               (int (card {k. k < nat (num_hashes ?self) \<and>
                              ?sigs ! nat i ! k = ?sigs ! nat j ! k}))
               (num_hashes ?self) \<and>
       \<bar>sim - of_nat (card {k. k < nat (num_hashes ?self) \<and>
                                ?sigs ! nat i ! k = ?sigs ! nat j ! k}) /
              of_int (num_hashes ?self)\<bar> \<le> 1 / 2 ^ 53"
    by blast
  have "(0, 1) \<in> set (map (\<lambda>(i, j, sim). (i, j)) sims)"
    unfolding s by simp
  then obtain sim where mem: "(0, 1, sim) \<in> set sims" by auto
  have "{k. k < nat 3 \<and> ?sigs ! nat 0 ! k = ?sigs ! nat 1 ! k} = {0}"
    by (auto simp: nth_Cons' split: if_splits)
  then have one: "card {k. k < nat 3 \<and> ?sigs ! nat 0 ! k = ?sigs ! nat 1 ! k} = 1"
    by simp
  have third: "nearest_double 1 3 = 6004799503160661 / 18014398509481984"
    by code_simp
  from v mem have "sim = nearest_double
               (int (card {k. k < nat 3 \<and> ?sigs ! nat 0 ! k = ?sigs ! nat 1 ! k})) 3"
    by auto
  then have "sim = 6004799503160661 / 18014398509481984"
    unfolding one by (simp add: third)
  with mem have "(0, 1, 6004799503160661 / 18014398509481984) \<in> set sims" by simp
  with calc d s show ?thesis by auto
qed

subsection \<open>C3: a signature has as many slots as there are hash functions\<close>

text \<open>
  C3. Every signature that \<open>generate_minhash_signatures\<close> returns has \<open>num_hashes\<close>
  slots (none when \<open>num_hashes\<close> is negative), also for a document with no shingle,
  whose slots all hold the sentinel 4294967312.
\<close>

theorem signature_length_is_num_hashes:
  assumes "next_prime self = 4294967311"
    and "num_hashes self \<le> int (length (coeff_a self))"
    and "num_hashes self \<le> int (length (coeff_b self))"
  shows "\<exists>signatures. generate_minhash_signatures self = Inr signatures \<and>
           length signatures = length (docs_as_sets self) \<and>
           (\<forall>d < length (docs_as_sets self).
              length (signatures ! d) = nat (num_hashes self) \<and>
              (snd (docs_as_sets self ! d) = [] \<longrightarrow>
                 signatures ! d = replicate (nat (num_hashes self)) (4294967311 + 1)))"
proof -
  let ?sigs = "map (\<lambda>(doc_id, ss).
                 map (\<lambda>i. Min (insert (next_prime self + 1)
                   ((\<lambda>s. (coeff_a self ! nat i * s + coeff_b self ! nat i) mod next_prime self) `
                      set ss)))
                 (py_range 0 (num_hashes self)))
               (docs_as_sets self)"
  have gen: "generate_minhash_signatures self = Inr ?sigs"
    using assms by (intro generate_ok) simp_all
  have len: "length ?sigs = length (docs_as_sets self)" by simp
  have pt: "length (?sigs ! d) = nat (num_hashes self) \<and>
            (snd (docs_as_sets self ! d) = [] \<longrightarrow>
               ?sigs ! d = replicate (nat (num_hashes self)) (4294967311 + 1))"
    if "d < length (docs_as_sets self)" for d
    using that assms(1)
    by (simp add: case_prod_beta length_py_range map_replicate_const)
  from gen len pt show ?thesis by blast
qed

text \<open>
  C3 on a document of three shingles and an empty one, with three hash functions.
\<close>

theorem signature_length_is_num_hashes_witness:
  "\<exists>signatures.
     generate_minhash_signatures
       \<lparr>docs_as_sets = [(7, [10, 20, 30]), (9, [])], num_hashes = 3,
        similarity_threshold = 1 / 2, num_docs = 2, max_shingle = 4294967295,
        next_prime = 4294967311, coeff_a = [1, 2, 3], coeff_b = [4, 5, 6]\<rparr> = Inr signatures \<and>
     length signatures = 2 \<and> length (signatures ! 0) = 3 \<and>
     signatures ! 1 = [4294967312, 4294967312, 4294967312]"
proof -
  let ?self = "\<lparr>docs_as_sets = [(7, [10, 20, 30]), (9, [])], num_hashes = 3,
        similarity_threshold = 1 / 2, num_docs = 2, max_shingle = 4294967295,
        next_prime = 4294967311, coeff_a = [1, 2, 3], coeff_b = [4, 5, 6]\<rparr>"
  have h: "next_prime ?self = 4294967311"
    "num_hashes ?self \<le> int (length (coeff_a ?self))"
    "num_hashes ?self \<le> int (length (coeff_b ?self))"
    by simp_all
  show ?thesis
    using signature_length_is_num_hashes [OF h]
    by (auto simp add: numeral_2_eq_2 numeral_3_eq_3 All_less_Suc)
qed

subsection \<open>C4: the estimate is symmetric and lies between 0 and 1\<close>

text \<open>
  C4. For two signatures of \<open>num_hashes\<close> entries, \<open>num_hashes\<close> positive, the
  estimate of lines 98 to 101 is the same in both orders and lies in the closed interval
  from 0 to 1.
\<close>

theorem similarity_symmetric_in_unit_interval:
  assumes "int (length x) = num_hashes self"
    and "int (length y) = num_hashes self"
    and "0 < num_hashes self"
  shows "\<exists>sim. pair_similarity self x y = Inr sim \<and> pair_similarity self y x = Inr sim \<and>
           0 \<le> sim \<and> sim \<le> 1"
proof -
  let ?c = "card {k. k < nat (num_hashes self) \<and> x ! k = y ! k}"
  let ?sim = "nearest_double (int ?c) (num_hashes self)"
  have xy: "pair_similarity self x y = Inr ?sim"
    using assms by (intro pair_similarity_ok) simp_all
  have "pair_similarity self y x = pair_similarity self x y"
    by (simp add: pair_similarity_def count_loop_commute [of y x])
  with xy have yx: "pair_similarity self y x = Inr ?sim" by simp
  have "?c \<le> nat (num_hashes self)" by (rule matches_le)
  then have c: "int ?c \<le> num_hashes self" using assms(3) by linarith
  have ge: "0 \<le> ?sim" by (rule nearest_double_unit(1) [OF _ c assms(3)]) simp
  have le: "?sim \<le> 1" by (rule nearest_double_unit(2) [OF _ c assms(3)]) simp
  from xy yx ge le show ?thesis by blast
qed

text \<open>
  C4 on two signatures of four slots that agree in two of them.
\<close>

theorem similarity_symmetric_in_unit_interval_witness:
  "\<exists>sim.
     pair_similarity
       \<lparr>docs_as_sets = [], num_hashes = 4, similarity_threshold = 1 / 2, num_docs = 0,
        max_shingle = 4294967295, next_prime = 4294967311,
        coeff_a = [1, 2, 3, 4], coeff_b = [5, 6, 7, 8]\<rparr> [1, 2, 3, 4] [1, 9, 3, 7] = Inr sim \<and>
     pair_similarity
       \<lparr>docs_as_sets = [], num_hashes = 4, similarity_threshold = 1 / 2, num_docs = 0,
        max_shingle = 4294967295, next_prime = 4294967311,
        coeff_a = [1, 2, 3, 4], coeff_b = [5, 6, 7, 8]\<rparr> [1, 9, 3, 7] [1, 2, 3, 4] = Inr sim \<and>
     0 \<le> sim \<and> sim \<le> 1"
proof -
  let ?self = "\<lparr>docs_as_sets = [], num_hashes = 4, similarity_threshold = 1 / 2, num_docs = 0,
        max_shingle = 4294967295, next_prime = 4294967311,
        coeff_a = [1, 2, 3, 4], coeff_b = [5, 6, 7, 8]\<rparr>"
  have h: "int (length [1, 2, 3, 4 :: int]) = num_hashes ?self"
    "int (length [1, 9, 3, 7 :: int]) = num_hashes ?self"
    "0 < num_hashes ?self"
    by simp_all
  show ?thesis
    by (rule similarity_symmetric_in_unit_interval [OF h])
qed

subsection \<open>C5: equal shingle sets give the estimate 1\<close>

text \<open>
  C5. When the documents at the positions \<open>i < j\<close> have the same shingles (as sets:
  the order in which each set is walked is free), then for every positive \<open>num_hashes\<close>,
  every coefficient lists with an entry for each hash function and every nonzero modulus,
  the signatures are generated, the similarities are calculated, and the triple of the
  pair \<open>(i, j)\<close> carries the estimate 1 and no other.
\<close>

theorem identical_shingle_sets_similarity_one:
  assumes "next_prime self \<noteq> 0"
    and "num_hashes self \<le> int (length (coeff_a self))"
    and "num_hashes self \<le> int (length (coeff_b self))"
    and "0 < num_hashes self"
    and "num_docs self = int (length (docs_as_sets self))"
    and "i < j" "j < length (docs_as_sets self)"
    and "set (snd (docs_as_sets self ! i)) = set (snd (docs_as_sets self ! j))"
  shows "\<exists>signatures sims.
           generate_minhash_signatures self = Inr signatures \<and>
           calculate_similarities self signatures = Inr sims \<and>
           (\<forall>sim. (int i, int j, sim) \<in> set sims \<longleftrightarrow> sim = 1)"
proof -
  let ?sigs = "map (\<lambda>(doc_id, ss).
                 map (\<lambda>i. Min (insert (next_prime self + 1)
                   ((\<lambda>s. (coeff_a self ! nat i * s + coeff_b self ! nat i) mod next_prime self) `
                      set ss)))
                 (py_range 0 (num_hashes self)))
               (docs_as_sets self)"
  define f :: "int \<Rightarrow> int \<Rightarrow> rat" where
    "f = (\<lambda>i j. nearest_double
                  (int (card {k. k < nat (num_hashes self) \<and>
                                 ?sigs ! nat i ! k = ?sigs ! nat j ! k}))
                  (num_hashes self))"
  let ?sims = "concat (map (\<lambda>i. map (\<lambda>j. (i, j, f i j)) (py_range (i + 1) (num_docs self)))
                 (py_range 0 (num_docs self)))"
  have gen: "generate_minhash_signatures self = Inr ?sigs"
    by (rule generate_ok [OF assms(2,3,1)])
  have calc: "calculate_similarities self ?sigs = Inr ?sims"
    unfolding f_def
  proof (rule calculate_similarities_ok)
    show "num_docs self \<le> int (length ?sigs)" using assms(5) by simp
    show "num_hashes self \<le> int (length s)" if "s \<in> set ?sigs" for s
      using that by (auto simp: length_py_range)
    show "0 < num_hashes self" by (rule assms(4))
  qed
  have same: "?sigs ! i = ?sigs ! j"
    using assms(6-8) by (simp add: case_prod_beta)
  have "card {k. k < nat (num_hashes self) \<and> ?sigs ! i ! k = ?sigs ! j ! k} =
          nat (num_hashes self)"
    unfolding same by simp
  then have one: "f (int i) (int j) = 1"
    using assms(4) by (simp add: f_def nearest_double_same)
  have "(int i, int j, sim) \<in> set ?sims \<longleftrightarrow> sim = 1" for sim
    unfolding triples_mem using assms(5-7) one by simp
  with gen calc show ?thesis by blast
qed

text \<open>
  C5 on three documents, the first and the third holding the shingles 3 and 5 in
  opposite orders.
\<close>

theorem identical_shingle_sets_similarity_one_witness:
  "\<exists>signatures sims.
     generate_minhash_signatures
       \<lparr>docs_as_sets = [(1, [3, 5]), (2, [8]), (3, [5, 3])], num_hashes = 2,
        similarity_threshold = 1 / 2, num_docs = 3, max_shingle = 4294967295,
        next_prime = 4294967311, coeff_a = [2, 7], coeff_b = [1, 4]\<rparr> = Inr signatures \<and>
     calculate_similarities
       \<lparr>docs_as_sets = [(1, [3, 5]), (2, [8]), (3, [5, 3])], num_hashes = 2,
        similarity_threshold = 1 / 2, num_docs = 3, max_shingle = 4294967295,
        next_prime = 4294967311, coeff_a = [2, 7], coeff_b = [1, 4]\<rparr> signatures = Inr sims \<and>
     (0, 2, 1) \<in> set sims"
proof -
  let ?self = "\<lparr>docs_as_sets = [(1, [3, 5]), (2, [8]), (3, [5, 3])], num_hashes = 2,
        similarity_threshold = 1 / 2, num_docs = 3, max_shingle = 4294967295,
        next_prime = 4294967311, coeff_a = [2, 7], coeff_b = [1, 4]\<rparr>"
  have h: "next_prime ?self \<noteq> 0"
    "num_hashes ?self \<le> int (length (coeff_a ?self))"
    "num_hashes ?self \<le> int (length (coeff_b ?self))"
    "0 < num_hashes ?self"
    "num_docs ?self = int (length (docs_as_sets ?self))"
    "(0 :: nat) < 2" "2 < length (docs_as_sets ?self)"
    "set (snd (docs_as_sets ?self ! 0)) = set (snd (docs_as_sets ?self ! 2))"
    by auto
  from identical_shingle_sets_similarity_one [OF h] obtain signatures sims where
    "generate_minhash_signatures ?self = Inr signatures"
    "calculate_similarities ?self signatures = Inr sims"
    "\<forall>sim. (int 0, int 2, sim) \<in> set sims \<longleftrightarrow> sim = 1"
    by blast
  then show ?thesis by auto
qed

subsection \<open>C6: the size of a shingle set\<close>

text \<open>
  C6. For every text, every window size and every checksum, the set that
  \<open>generate_shingles\<close> returns has at most \<open>max(0, wordCount - k + 1)\<close> elements, each
  once, and it is empty when the text has fewer than \<open>k\<close> words. The function raises
  nothing: it is total.
\<close>

theorem shingle_set_size_bound:
  "length (generate_shingles self crc32_utf8 text) \<le>
     nat (max 0 (int (length (str_split text)) - shingle_size self + 1)) \<and>
   distinct (generate_shingles self crc32_utf8 text) \<and>
   (int (length (str_split text)) < shingle_size self \<longrightarrow>
      generate_shingles self crc32_utf8 text = [])"
proof -
  let ?n = "int (length (str_split text)) - shingle_size self + 1"
  have "length (generate_shingles self crc32_utf8 text) \<le> length (py_range 0 ?n)"
    using fold_shingle_step_length [of self crc32_utf8 "str_split text" "py_range 0 ?n" "[]"]
    by (simp add: generate_shingles_def Let_def)
  then have bound: "length (generate_shingles self crc32_utf8 text) \<le> nat (max 0 ?n)"
    by (simp add: length_py_range)
  have dist: "distinct (generate_shingles self crc32_utf8 text)"
    by (simp add: generate_shingles_def Let_def fold_shingle_step_distinct)
  have "generate_shingles self crc32_utf8 text = []"
    if "int (length (str_split text)) < shingle_size self"
    using that by (simp add: generate_shingles_def Let_def py_range_def)
  with bound dist show ?thesis by blast
qed

text \<open>
  C6 on a text of two words with windows of three words, and on a text of four words
  with windows of two.
\<close>

theorem shingle_set_size_bound_witness:
  "length (generate_shingles (data_loader_init ''corpus'' 3) (\<lambda>s. int (length s)) ''the cat'') \<le> 0 \<and>
   generate_shingles (data_loader_init ''corpus'' 3) (\<lambda>s. int (length s)) ''the cat'' = [] \<and>
   length (generate_shingles (data_loader_init ''corpus'' 2) (\<lambda>s. int (length s)) ''a bb a bb'') \<le> 3"
proof -
  have w1: "str_split ''the cat'' = [''the'', ''cat'']"
    by (simp add: str_split_def is_space_def)
  have w2: "str_split ''a bb a bb'' = [''a'', ''bb'', ''a'', ''bb'']"
    by (simp add: str_split_def is_space_def)
  show ?thesis
    using shingle_set_size_bound [of "data_loader_init ''corpus'' 3" "\<lambda>s. int (length s)" "''the cat''"]
      shingle_set_size_bound [of "data_loader_init ''corpus'' 2" "\<lambda>s. int (length s)" "''a bb a bb''"]
    by (simp add: w1 w2 data_loader_init_def)
qed

subsection \<open>C7: the pools of coefficients\<close>

text \<open>
  C7 says that the sampling loop returns for every \<open>num_hashes\<close>. There are only
  \<open>2\<^sup>3\<^sup>2\<close> values to draw from: with \<open>num_hashes = 2\<^sup>3\<^sup>2 + 1\<close> the set never reaches
  its target and the loop does not return, whatever is drawn.
\<close>

theorem pick_random_coeffs_never_returns:
  "pick_random_coeffs 4294967297 4294967295 (sconst 0) = None"
  using pick_loop_diverges [of 4294967295 4294967297 "[]" "sconst 0"]
  by (simp add: pick_random_coeffs_def)

text \<open>
  C7, amended. Whenever \<open>_pick_random_coeffs\<close> returns, the pool has exactly
  \<open>num_hashes\<close> values (none when \<open>num_hashes\<close> is negative), pairwise distinct, each in
  \<open>[0, 2\<^sup>3\<^sup>2 - 1]\<close>. It returns as soon as the draws have given \<open>num_hashes\<close>
  distinct values, after any number of rejected draws. For \<open>num_hashes > 2\<^sup>3\<^sup>2\<close> it
  never returns. The constructor fills \<open>coeff_a\<close> and \<open>coeff_b\<close> by two such calls, so
  each of the two lists has these properties on its own.
\<close>

theorem pick_random_coeffs_pool:
  "(\<forall>r. pick_random_coeffs n (2 ^ 32 - 1) rng = Some r \<longrightarrow>
      (\<exists>pool rng'. r = Inr (pool, rng') \<and> int (length pool) = max 0 n \<and> distinct pool \<and>
         set pool \<subseteq> {0..2 ^ 32 - 1})) \<and>
   (nat n \<le> card ((\<lambda>x. x mod 2 ^ 32) ` set (stake k rng)) \<longrightarrow>
      pick_random_coeffs n (2 ^ 32 - 1) rng \<noteq> None) \<and>
   (2 ^ 32 < n \<longrightarrow> pick_random_coeffs n (2 ^ 32 - 1) rng = None) \<and>
   (\<forall>r. init docs n threshold rng = Some r \<longrightarrow>
      (\<exists>self rng'. r = Inr (self, rng') \<and>
         int (length (coeff_a self)) = max 0 n \<and> distinct (coeff_a self) \<and>
         set (coeff_a self) \<subseteq> {0..2 ^ 32 - 1} \<and>
         int (length (coeff_b self)) = max 0 n \<and> distinct (coeff_b self) \<and>
         set (coeff_b self) \<subseteq> {0..2 ^ 32 - 1}))"
proof (intro conjI allI impI)
  fix r assume "pick_random_coeffs n (2 ^ 32 - 1) rng = Some r"
  then show "\<exists>pool rng'. r = Inr (pool, rng') \<and> int (length pool) = max 0 n \<and> distinct pool \<and>
         set pool \<subseteq> {0..2 ^ 32 - 1}"
    by (rule pick_random_coeffs_result)
next
  assume "nat n \<le> card ((\<lambda>x. x mod 2 ^ 32) ` set (stake k rng))"
  then show "pick_random_coeffs n (2 ^ 32 - 1) rng \<noteq> None"
    using pick_loop_returns [of "2 ^ 32 - 1" "[]" n k rng]
    by (auto simp: pick_random_coeffs_def)
next
  assume "2 ^ 32 < n"
  then show "pick_random_coeffs n (2 ^ 32 - 1) rng = None"
    using pick_loop_diverges [of "2 ^ 32 - 1" n "[]" rng]
    by (simp add: pick_random_coeffs_def)
next
  fix r assume "init docs n threshold rng = Some r"
  from init_result [OF this]
  show "\<exists>self rng'. r = Inr (self, rng') \<and>
         int (length (coeff_a self)) = max 0 n \<and> distinct (coeff_a self) \<and>
         set (coeff_a self) \<subseteq> {0..2 ^ 32 - 1} \<and>
         int (length (coeff_b self)) = max 0 n \<and> distinct (coeff_b self) \<and>
         set (coeff_b self) \<subseteq> {0..2 ^ 32 - 1}"
    by blast
qed

text \<open>
  C7, amended, on the draws 5, 6, 7, ... and two hash functions: the pool is 5, 6.
\<close>

theorem pick_random_coeffs_pool_witness:
  "pick_random_coeffs 2 (2 ^ 32 - 1) (siterate (\<lambda>x. x + 1) 5) \<noteq> None \<and>
   pick_random_coeffs 2 (2 ^ 32 - 1) (siterate (\<lambda>x. x + 1) 5) =
     Some (Inr ([5, 6], siterate (\<lambda>x. x + 1) 7))"
proof -
  have "nat 2 \<le> card ((\<lambda>x. x mod 2 ^ 32) ` set (stake 2 (siterate (\<lambda>x. x + 1) (5 :: int))))"
    by (simp add: numeral_2_eq_2)
  then have "pick_random_coeffs 2 (2 ^ 32 - 1) (siterate (\<lambda>x. x + 1) 5) \<noteq> None"
    using pick_random_coeffs_pool [of 2 "siterate (\<lambda>x. x + 1) 5" 2] by blast
  moreover have "pick_random_coeffs 2 (2 ^ 32 - 1) (siterate (\<lambda>x. x + 1) 5) =
     Some (Inr ([5, 6], siterate (\<lambda>x. x + 1) 7))"
    by (simp add: pick_random_coeffs_def pick_loop.simps randint_def set_add_def)
  ultimately show ?thesis by blast
qed

subsection \<open>C8: construction with a size that is not positive\<close>

text \<open>
  C8 says that construction with \<open>num_hashes \<le> 0\<close> or \<open>shingle_size \<le> 0\<close> fails.
  Neither constructor checks its arguments: with \<open>num_hashes = 0\<close> the object is built,
  and the loader is built with \<open>shingle_size = 0\<close>.
\<close>

theorem construction_accepts_zero_hashes:
  "init [(1, [5])] 0 (1 / 2) (sconst 0) =
     Some (Inr (\<lparr>docs_as_sets = [(1, [5])], num_hashes = 0, similarity_threshold = 1 / 2,
                 num_docs = 1, max_shingle = 4294967295, next_prime = 4294967311,
                 coeff_a = [], coeff_b = []\<rparr>, sconst 0)) \<and>
   shingle_size (data_loader_init ''data'' 0) = 0"
  by (simp add: init_def pick_random_coeffs_def pick_loop.simps data_loader_init_def)

text \<open>
  C8, amended. With \<open>num_hashes \<le> 0\<close> the constructor of the algorithm returns an
  object whose two coefficient lists are empty, without a draw; for no argument does it
  raise. The constructor of the loader stores every \<open>shingle_size\<close> as it is given.
\<close>

theorem construction_does_not_validate:
  "(n \<le> 0 \<longrightarrow>
      init docs n threshold rng =
        Some (Inr (\<lparr>docs_as_sets = docs, num_hashes = n, similarity_threshold = threshold,
                    num_docs = int (length docs), max_shingle = 4294967295,
                    next_prime = 4294967311, coeff_a = [], coeff_b = []\<rparr>, rng))) \<and>
   init docs n threshold rng \<noteq> Some (Inl e) \<and>
   data_loader_init dir k =
     \<lparr>directory = dir, doc_counter = 0, loader_docs_as_sets = [], shingle_size = k\<rparr>"
proof (intro conjI impI)
  assume "n \<le> 0"
  then have "pick_random_coeffs n (2 ^ 32 - 1) g = Some (Inr ([], g))" for g
    unfolding pick_random_coeffs_def by (subst pick_loop.simps) simp
  then show "init docs n threshold rng =
        Some (Inr (\<lparr>docs_as_sets = docs, num_hashes = n, similarity_threshold = threshold,
                    num_docs = int (length docs), max_shingle = 4294967295,
                    next_prime = 4294967311, coeff_a = [], coeff_b = []\<rparr>, rng))"
    by (simp add: init_def)
next
  show "init docs n threshold rng \<noteq> Some (Inl e)"
    using init_result [of docs n threshold rng "Inl e"] by auto
next
  show "data_loader_init dir k =
     \<lparr>directory = dir, doc_counter = 0, loader_docs_as_sets = [], shingle_size = k\<rparr>"
    by (simp add: data_loader_init_def)
qed

text \<open>
  C8, amended, on \<open>num_hashes = -3\<close>.
\<close>

theorem construction_does_not_validate_witness:
  "(-3 :: int) \<le> 0 \<and>
   init [(1, [5])] (-3) (1 / 2) (sconst 9) =
     Some (Inr (\<lparr>docs_as_sets = [(1, [5])], num_hashes = -3, similarity_threshold = 1 / 2,
                 num_docs = 1, max_shingle = 4294967295, next_prime = 4294967311,
                 coeff_a = [], coeff_b = []\<rparr>, sconst 9))"
  using construction_does_not_validate [of "-3" "[(1, [5])]" "1 / 2" "sconst 9"]
  by simp

subsection \<open>C9: a corpus with no document\<close>

text \<open>
  C9 says that an error is raised when there is no document. With an empty
  \<open>docs_as_sets\<close> the constructor returns, the signatures are the empty list and so are
  the similarities.
\<close>

theorem empty_corpus_raises_nothing:
  "init [] 1 (1 / 2) (sconst 0) =
     Some (Inr (\<lparr>docs_as_sets = [], num_hashes = 1, similarity_threshold = 1 / 2,
                 num_docs = 0, max_shingle = 4294967295, next_prime = 4294967311,
                 coeff_a = [0], coeff_b = [0]\<rparr>, sconst 0)) \<and>
   generate_minhash_signatures
     \<lparr>docs_as_sets = [], num_hashes = 1, similarity_threshold = 1 / 2,
      num_docs = 0, max_shingle = 4294967295, next_prime = 4294967311,
      coeff_a = [0], coeff_b = [0]\<rparr> = Inr [] \<and>
   calculate_similarities
     \<lparr>docs_as_sets = [], num_hashes = 1, similarity_threshold = 1 / 2,
      num_docs = 0, max_shingle = 4294967295, next_prime = 4294967311,
      coeff_a = [0], coeff_b = [0]\<rparr> [] = Inr []"
  by (simp add: init_def pick_random_coeffs_def pick_loop.simps randint_def set_add_def
      generate_minhash_signatures_def calculate_similarities_def py_range_def)

text \<open>
  C9, amended. With no document, whenever the constructor returns it returns an object,
  for which \<open>generate_minhash_signatures\<close> and \<open>calculate_similarities\<close> both return
  the empty list; and the constructor returns when, from every point on, the draws give
  \<open>num_hashes\<close> distinct values.
\<close>

theorem empty_corpus_yields_empty_result:
  "(\<forall>r. init [] n threshold rng = Some r \<longrightarrow>
      (\<exists>self rng'. r = Inr (self, rng') \<and>
         generate_minhash_signatures self = Inr [] \<and>
         calculate_similarities self [] = Inr [])) \<and>
   ((\<forall>j. \<exists>k. nat n \<le> card ((\<lambda>x. x mod 2 ^ 32) ` set (stake k (sdrop j rng)))) \<longrightarrow>
      init [] n threshold rng \<noteq> None)"
proof (intro conjI allI impI)
  fix r assume "init [] n threshold rng = Some r"
  from init_result [OF this] obtain self rng' where
    r: "r = Inr (self, rng')" and d: "docs_as_sets self = []" and n: "num_docs self = 0"
    by auto
  have "generate_minhash_signatures self = Inr []"
    using d by (simp add: generate_minhash_signatures_def)
  moreover have "calculate_similarities self [] = Inr []"
    using n by (simp add: calculate_similarities_def py_range_def)
  ultimately show "\<exists>self rng'. r = Inr (self, rng') \<and>
         generate_minhash_signatures self = Inr [] \<and>
         calculate_similarities self [] = Inr []"
    using r by blast
next
  assume "\<forall>j. \<exists>k. nat n \<le> card ((\<lambda>x. x mod 2 ^ 32) ` set (stake k (sdrop j rng)))"
  then show "init [] n threshold rng \<noteq> None"
    using init_returns [of n rng "[]" threshold] by auto
qed

text \<open>
  C9, amended, on one hash function and draws that are all 0.
\<close>

theorem empty_corpus_yields_empty_result_witness:
  "init [] 1 (1 / 2) (sconst 0) \<noteq> None \<and>
   (\<exists>self rng'. init [] 1 (1 / 2) (sconst 0) = Some (Inr (self, rng')) \<and>
      generate_minhash_signatures self = Inr [] \<and> calculate_similarities self [] = Inr [])"
proof -
  have "\<exists>k. nat 1 \<le> card ((\<lambda>x. x mod 2 ^ 32) ` set (stake k (sdrop j (sconst (0 :: int)))))" for j
    by (rule exI [of _ 1]) simp
  then have ret: "init [] 1 (1 / 2) (sconst 0) \<noteq> None"
    using empty_corpus_yields_empty_result [of 1 "1 / 2" "sconst 0"] by blast
  then obtain r where "init [] 1 (1 / 2) (sconst 0) = Some r" by blast
  with ret show ?thesis
    using empty_corpus_yields_empty_result [of 1 "1 / 2" "sconst 0"] by auto
qed

subsection \<open>C10: the sentinel marks the empty shingle set\<close>

text \<open>
  C10. In the signature of a document that has a shingle, every slot is at least 0 and
  below 4294967311, every hash value being a remainder modulo that prime; so a slot
  holds the sentinel 4294967312 exactly when the shingle set of its document is empty.
\<close>

theorem sentinel_only_for_empty_shingle_set:
  assumes "next_prime self = 4294967311"
    and "num_hashes self \<le> int (length (coeff_a self))"
    and "num_hashes self \<le> int (length (coeff_b self))"
  shows "\<exists>signatures. generate_minhash_signatures self = Inr signatures \<and>
           length signatures = length (docs_as_sets self) \<and>
           (\<forall>d < length (docs_as_sets self). \<forall>v \<in> set (signatures ! d).
              (snd (docs_as_sets self ! d) \<noteq> [] \<longrightarrow> 0 \<le> v \<and> v < 4294967311) \<and>
              (v = 4294967311 + 1 \<longleftrightarrow> snd (docs_as_sets self ! d) = []))"
proof -
  let ?h = "\<lambda>i s. (coeff_a self ! nat i * s + coeff_b self ! nat i) mod 4294967311"
  let ?sigs = "map (\<lambda>(doc_id, ss).
                 map (\<lambda>i. Min (insert (next_prime self + 1)
                   ((\<lambda>s. (coeff_a self ! nat i * s + coeff_b self ! nat i) mod next_prime self) `
                      set ss)))
                 (py_range 0 (num_hashes self)))
               (docs_as_sets self)"
  have gen: "generate_minhash_signatures self = Inr ?sigs"
    using assms by (intro generate_ok) simp_all
  have len: "length ?sigs = length (docs_as_sets self)" by simp
  have pt: "(snd (docs_as_sets self ! d) \<noteq> [] \<longrightarrow> 0 \<le> v \<and> v < 4294967311) \<and>
            (v = 4294967311 + 1 \<longleftrightarrow> snd (docs_as_sets self ! d) = [])"
    if d: "d < length (docs_as_sets self)" and v: "v \<in> set (?sigs ! d)" for d v
  proof -
    let ?ss = "snd (docs_as_sets self ! d)"
    from d v assms(1) obtain i where
      vi: "v = Min (insert (4294967311 + 1) (?h i ` set ?ss))"
      by (auto simp: case_prod_beta)
    show ?thesis
    proof (cases "?ss = []")
      case True
      with vi show ?thesis by simp
    next
      case False
      with vi have "v = Min (?h i ` set ?ss)"
        using slot_value [of 4294967311 "coeff_a self ! nat i" "coeff_b self ! nat i" ?ss]
        by simp
      moreover have "Min (?h i ` set ?ss) \<in> ?h i ` set ?ss"
        using False by (intro Min_in) simp_all
      ultimately obtain s where "v = ?h i s" by blast
      then have "0 \<le> v" "v < 4294967311" by simp_all
      with False show ?thesis by simp
    qed
  qed
  from gen len pt show ?thesis by blast
qed

text \<open>
  C10 on the largest shingle, 4294967295, with the largest coefficients, and on an
  empty document.
\<close>

theorem sentinel_only_for_empty_shingle_set_witness:
  "\<exists>signatures.
     generate_minhash_signatures
       \<lparr>docs_as_sets = [(1, [4294967295]), (2, [])], num_hashes = 2,
        similarity_threshold = 1 / 2, num_docs = 2, max_shingle = 4294967295,
        next_prime = 4294967311, coeff_a = [4294967295, 1], coeff_b = [4294967295, 0]\<rparr> =
       Inr signatures \<and>
     set (signatures ! 0) \<subseteq> {0..<4294967311} \<and>
     set (signatures ! 1) \<subseteq> {4294967312}"
proof -
  let ?self = "\<lparr>docs_as_sets = [(1, [4294967295]), (2, [])], num_hashes = 2,
        similarity_threshold = 1 / 2, num_docs = 2, max_shingle = 4294967295,
        next_prime = 4294967311, coeff_a = [4294967295, 1], coeff_b = [4294967295, 0]\<rparr>"
  have h: "next_prime ?self = 4294967311"
    "num_hashes ?self \<le> int (length (coeff_a ?self))"
    "num_hashes ?self \<le> int (length (coeff_b ?self))"
    by simp_all
  show ?thesis
    using sentinel_only_for_empty_shingle_set [OF h]
    by (auto simp add: numeral_2_eq_2 All_less_Suc)
qed

end
